theory Spec2Isabelle
  imports Main "HOL-Library.Word" "HOL-Library.Multiset" "HOL-Library.List_Lexorder"
begin

unbundle bit_operations_syntax

section \<open>Bytes, errors and outcomes\<close>

type_synonym byte = "8 word"
type_synonym bytes = "byte list"

text \<open>A Go string literal converted with \<^verbatim>\<open>[]byte("...")\<close>. A nil slice and an empty
  slice are both the empty list.\<close>

definition bytes_of :: "string \<Rightarrow> bytes" where
  "bytes_of s = map (\<lambda>c. word_of_nat (of_char c)) s"

datatype error =
    DuplicateKeyError
  | KeyNotFoundError
  | NotFoundError
  | MalformedProofError
  | ErrorsNew string
  | LibraryError string

text \<open>A call either returns or panics (a Go run-time panic such as an index out of range).\<close>

datatype 'a exec = Returns 'a | Panics string

text \<open>\<^verbatim>\<open>bytes.Compare\<close> of the Go standard library: lexicographic comparison of the
  unsigned bytes, \<open>-1\<close>, \<open>0\<close> or \<open>1\<close>.\<close>

fun bytes_Compare :: "bytes \<Rightarrow> bytes \<Rightarrow> int" where
  "bytes_Compare [] [] = 0"
| "bytes_Compare [] (y # ys) = -1"
| "bytes_Compare (x # xs) [] = 1"
| "bytes_Compare (x # xs) (y # ys) =
     (if x < y then -1 else if y < x then 1 else bytes_Compare xs ys)"

section \<open>The transaction (struct.go, Action and Transaction)\<close>

type_synonym Action = int

definition Create :: Action where "Create = 1"
definition Update :: Action where "Update = 2"
definition Remove :: Action where "Remove = 3"

text \<open>Modelled from the spec: \<^verbatim>\<open>darc.Signature\<close> is declared in the darc package,
  which is not among the sources; section 3 describes a signature as a pair of signer
  identity and signature bytes, opaque to the store.\<close>

type_synonym darc_Signature = "bytes \<times> bytes"

record Transaction =
  Action :: Action
  Key :: bytes
  Kind :: bytes
  Value :: bytes
  Valid :: bool
  Signatures :: "darc_Signature list"

section \<open>The Authenticated Collection (package collection)\<close>

text \<open>A value handed back by the collection has Go type \<^verbatim>\<open>interface{}\<close>: it is a byte
  slice or something else.\<close>

datatype dynval = VBytes bytes | VOther

text \<open>Modelled from the spec: the collection package is not among the sources. Section
  4.1: the collection maintains a set of entries, one tuple of values per key, and its root
  digest is a pure function of that set. \<^verbatim>\<open>add\<close> "inserts or overwrites the entry for
  key" and "fails with DuplicateKeyError only if the structure's insertion primitive
  requires strict absence (implementation choice)": the choice is the field \<open>strict\<close>,
  fixed when the collection is made. \<^verbatim>\<open>remove\<close> "deletes the entry; fails with
  KeyNotFoundError if absent". A failing operation leaves the collection as it was.\<close>

record collection =
  entries :: "bytes \<rightharpoonup> dynval list"
  strict :: bool

definition coll_New :: "bool \<Rightarrow> collection" where
  "coll_New pol = \<lparr>entries = Map.empty, strict = pol\<rparr>"

definition coll_Add :: "collection \<Rightarrow> bytes \<Rightarrow> dynval list \<Rightarrow> error option \<times> collection" where
  "coll_Add c key vals =
     (case entries c key of
        Some old \<Rightarrow>
          if strict c then (Some DuplicateKeyError, c)
          else (None, c\<lparr>entries := (entries c)(key \<mapsto> vals)\<rparr>)
      | None \<Rightarrow> (None, c\<lparr>entries := (entries c)(key \<mapsto> vals)\<rparr>))"

definition coll_Remove :: "collection \<Rightarrow> bytes \<Rightarrow> error option \<times> collection" where
  "coll_Remove c key =
     (case entries c key of
        Some old \<Rightarrow> (None, c\<lparr>entries := (entries c)(key := None)\<rparr>)
      | None \<Rightarrow> (Some KeyNotFoundError, c))"

text \<open>Modelled from the spec: the root digest (\<^verbatim>\<open>GetRoot\<close>) is "a pure function of the
  set's contents (not of insertion order)". The digest function \<open>dg\<close> is a parameter.\<close>

definition coll_GetRoot :: "((bytes \<rightharpoonup> dynval list) \<Rightarrow> 'h) \<Rightarrow> collection \<Rightarrow> 'h" where
  "coll_GetRoot dg c = dg (entries c)"

text \<open>Modelled from the spec: \<^verbatim>\<open>get(key)\<close> returns a proof object (the record
  of \<^verbatim>\<open>Get(key).Record()\<close>) from which the ordered list of stored values is extracted;
  it "fails with NotFoundError if no entry exists, surfaced distinctly from a
  malformed-proof error". A record read from the local collection is well formed.\<close>

record coll_Record =
  record_key :: bytes
  record_values :: "dynval list"
  record_malformed :: bool

definition coll_Get_Record :: "collection \<Rightarrow> bytes \<Rightarrow> error + coll_Record" where
  "coll_Get_Record c key =
     (case entries c key of
        None \<Rightarrow> Inl NotFoundError
      | Some vals \<Rightarrow> Inr \<lparr>record_key = key, record_values = vals, record_malformed = False\<rparr>)"

definition record_Values :: "coll_Record \<Rightarrow> error + dynval list" where
  "record_Values p = (if record_malformed p then Inl MalformedProofError else Inr (record_values p))"

section \<open>The Durable Bucket (package bbolt)\<close>

text \<open>Modelled from the spec: section 6 gives the bucket contract, \<^verbatim>\<open>put(key, value)\<close>
  that may fail, \<^verbatim>\<open>get(key)\<close>, and ordered cursor iteration over all keys. The bucket is
  the list of its pairs in ascending key order. Whether a put fails is decided by the
  parameter \<open>io\<close>. \<^verbatim>\<open>db.Update\<close> runs its function in one transaction: when the function
  returns an error nothing is written.\<close>

type_synonym bucket = "(bytes \<times> bytes) list"

fun bucket_insert :: "bytes \<Rightarrow> bytes \<Rightarrow> bucket \<Rightarrow> bucket" where
  "bucket_insert k v [] = [(k, v)]"
| "bucket_insert k v ((k', v') # b) =
     (if k = k' then (k, v) # b
      else if bytes_Compare k k' = -1 then (k, v) # (k', v') # b
      else (k', v') # bucket_insert k v b)"

definition bucket_Put ::
  "(bytes \<Rightarrow> bytes \<Rightarrow> error option) \<Rightarrow> bucket \<Rightarrow> bytes \<Rightarrow> bytes \<Rightarrow> error + bucket" where
  "bucket_Put io b k v = (case io k v of Some err \<Rightarrow> Inl err | None \<Rightarrow> Inr (bucket_insert k v b))"

definition bucket_Get :: "bucket \<Rightarrow> bytes \<Rightarrow> bytes" where
  "bucket_Get b k = (case map_of b k of None \<Rightarrow> [] | Some v \<Rightarrow> v)"

definition db_Update :: "bucket \<Rightarrow> (bucket \<Rightarrow> error + bucket) \<Rightarrow> error option \<times> bucket" where
  "db_Update b fn = (case fn b of Inl err \<Rightarrow> (Some err, b) | Inr b' \<Rightarrow> (None, b'))"

section \<open>The State Store (struct.go, collectionDB)\<close>

record collectionDB =
  db :: bucket
  bucketName :: bytes
  coll :: collection

text \<open>\<^verbatim>\<open>copy(dst, src)\<close> of Go: overwrites the first \<open>min (len dst) (len src)\<close> elements.\<close>

definition copy_bytes :: "bytes \<Rightarrow> bytes \<Rightarrow> bytes" where
  "copy_bytes dst src = take (length dst) src @ drop (length src) dst"

text \<open>The bucket key under which \<^verbatim>\<open>Store\<close> writes the kind:
  \<^verbatim>\<open>keykind := make([]byte, len(t.Key)+4); copy(keykind, t.Key);
  keykind = append(keykind, []byte("kind")...)\<close>.\<close>

definition keykind_of :: "bytes \<Rightarrow> bytes" where
  "keykind_of key = copy_bytes (replicate (length key + 4) 0) key @ bytes_of ''kind''"

text \<open>\<^verbatim>\<open>loadAll\<close>: for every pair of the bucket, in cursor order, add the key with the
  value and with whatever the bucket holds under key + "sig". The error of \<^verbatim>\<open>Add\<close> is
  not looked at.\<close>

fun loadAll_loop :: "bucket \<Rightarrow> (bytes \<times> bytes) list \<Rightarrow> collection \<Rightarrow> collection" where
  "loadAll_loop b [] c = c"
| "loadAll_loop b ((k, v) # rest) c =
     (let sig = bucket_Get b (k @ bytes_of ''sig'')
      in loadAll_loop b rest (snd (coll_Add c k [VBytes v, VBytes sig])))"

definition loadAll :: "collectionDB \<Rightarrow> collectionDB" where
  "loadAll c = c\<lparr>coll := loadAll_loop (db c) (db c) (coll c)\<rparr>"

text \<open>\<^verbatim>\<open>newCollectionDB\<close>. The field \<open>db\<close> of the model is the content of the bucket
  called \<open>name\<close>. \<^verbatim>\<open>CreateBucket\<close> makes that bucket when it is new and fails when it
  exists; its error is dropped, so the bucket \<open>d\<close> is used as it is (empty when new). With
  an empty name \<^verbatim>\<open>CreateBucket\<close> makes nothing, \<^verbatim>\<open>tx.Bucket\<close> in \<^verbatim>\<open>loadAll\<close> is
  nil, and taking its cursor panics. \<open>pol\<close> is the duplicate-key policy of the collection
  that \<^verbatim>\<open>collection.New\<close> makes. Every store that \<^verbatim>\<open>newCollectionDB\<close> returns has
  its bucket, which \<^verbatim>\<open>Store\<close> then finds.\<close>

definition newCollectionDB :: "bool \<Rightarrow> bucket \<Rightarrow> bytes \<Rightarrow> collectionDB exec" where
  "newCollectionDB pol d name =
     (if name = [] then Panics ''nil pointer dereference''
      else Returns (loadAll \<lparr>db = d, bucketName = name, coll = coll_New pol\<rparr>))"

definition Store_write ::
  "(bytes \<Rightarrow> bytes \<Rightarrow> error option) \<Rightarrow> Transaction \<Rightarrow> bucket \<Rightarrow> error + bucket" where
  "Store_write io t b =
     (case bucket_Put io b (Key t) (Value t) of
        Inl err \<Rightarrow> Inl err
      | Inr b1 \<Rightarrow>
          (case bucket_Put io b1 (keykind_of (Key t)) (Kind t) of
             Inl err \<Rightarrow> Inl err
           | Inr b2 \<Rightarrow> Inr b2))"

definition Store ::
  "(bytes \<Rightarrow> bytes \<Rightarrow> error option) \<Rightarrow> collectionDB \<Rightarrow> Transaction \<Rightarrow> error option \<times> collectionDB" where
  "Store io c t =
     (let coll1 = snd (coll_Add (coll c) (Key t) [VBytes (Value t), VBytes (Kind t)]);
          (err, db1) = db_Update (db c) (Store_write io t)
      in (err, c\<lparr>db := db1, coll := coll1\<rparr>))"

text \<open>\<^verbatim>\<open>GetValueKind\<close> returns its three named results; a failed type assertion leaves
  nil in the result it assigns. \<open>GetValueKind_values\<close> is the part of the function after
  \<^verbatim>\<open>proof.Values()\<close> has returned the list \<open>hashes\<close>, \<open>GetValueKind_record\<close> the part
  after \<^verbatim>\<open>Record()\<close> has returned.\<close>

definition GetValueKind_values :: "dynval list \<Rightarrow> (bytes \<times> bytes \<times> error option) exec" where
  "GetValueKind_values hashes =
     (if length hashes = 0
      then Returns ([], [], Some (ErrorsNew ''nothing stored under that key''))
      else
        (case hashes ! 0 of
           VOther \<Rightarrow> Returns ([], [], Some (ErrorsNew ''the value is not of type []byte''))
         | VBytes val \<Rightarrow>
             if length hashes \<le> 1 then Panics ''index out of range''
             else
               (case hashes ! 1 of
                  VOther \<Rightarrow>
                    Returns (val, [], Some (ErrorsNew ''the signature is not of type []byte''))
                | VBytes knd \<Rightarrow> Returns (val, knd, None))))"

definition GetValueKind_record :: "coll_Record \<Rightarrow> (bytes \<times> bytes \<times> error option) exec" where
  "GetValueKind_record p =
     (case record_Values p of
        Inl err \<Rightarrow> Returns ([], [], Some err)
      | Inr hashes \<Rightarrow> GetValueKind_values hashes)"

definition GetValueKind :: "collectionDB \<Rightarrow> bytes \<Rightarrow> (bytes \<times> bytes \<times> error option) exec" where
  "GetValueKind c key =
     (case coll_Get_Record (coll c) key of
        Inl err \<Rightarrow> Returns ([], [], Some err)
      | Inr p \<Rightarrow> GetValueKind_record p)"

definition RootHash :: "((bytes \<rightharpoonup> dynval list) \<Rightarrow> 'h) \<Rightarrow> collectionDB \<Rightarrow> 'h" where
  "RootHash dg c = coll_GetRoot dg (coll c)"

text \<open>\<^verbatim>\<open>tryHash\<close>. The loop adds the transactions one by one; a failing add ends the
  function, a successful one defers the removal of its key. The deferred removals run on
  return, last deferred first; one that fails sets the returned error and clears the
  returned root. \<open>tryHash_add\<close> carries the stack of deferred keys, newest first.\<close>

fun tryHash_add ::
  "collection \<Rightarrow> Transaction list \<Rightarrow> bytes list \<Rightarrow> collection \<times> bytes list \<times> error option" where
  "tryHash_add c [] deferred = (c, deferred, None)"
| "tryHash_add c (t # ts) deferred =
     (case coll_Add c (Key t) [VBytes (Value t), VBytes (Kind t)] of
        (Some err, c') \<Rightarrow> (c', deferred, Some err)
      | (None, c') \<Rightarrow> tryHash_add c' ts (Key t # deferred))"

fun run_deferred ::
  "bytes list \<Rightarrow> collection \<times> 'h option \<times> error option \<Rightarrow> collection \<times> 'h option \<times> error option" where
  "run_deferred [] st = st"
| "run_deferred (k # ks) (c, mr, rerr) =
     (case coll_Remove c k of
        (Some err, c') \<Rightarrow> run_deferred ks (c', None, Some err)
      | (None, c') \<Rightarrow> run_deferred ks (c', mr, rerr))"

definition tryHash ::
  "((bytes \<rightharpoonup> dynval list) \<Rightarrow> 'h) \<Rightarrow> collectionDB \<Rightarrow> Transaction list
     \<Rightarrow> ('h option \<times> error option) \<times> collectionDB" where
  "tryHash dg c ts =
     (case tryHash_add (coll c) ts [] of
        (c1, deferred, Some err) \<Rightarrow>
          (case run_deferred deferred (c1, None, Some err) of
             (c2, mr, rerr) \<Rightarrow> ((mr, rerr), c\<lparr>coll := c2\<rparr>))
      | (c1, deferred, None) \<Rightarrow>
          (case run_deferred deferred (c1, Some (coll_GetRoot dg c1), None) of
             (c2, mr, rerr) \<Rightarrow> ((mr, rerr), c\<lparr>coll := c2\<rparr>)))"

section \<open>The Deterministic Ordering Protocol (struct.go, sortTransactions)\<close>

text \<open>\<^verbatim>\<open>sha256.Sum256\<close> of the Go standard library is the parameter \<open>sha\<close>; it returns
  an array of \<^verbatim>\<open>sha256.Size\<close> bytes.\<close>

definition sha256_Size :: nat where
  "sha256_Size = 32"

text \<open>The inner loop of \<^verbatim>\<open>xorTransactions\<close>:
  \<^verbatim>\<open>for i := range result { result[i] = result[i] ^ hs[i] }\<close>.\<close>

definition xor_into :: "bytes \<Rightarrow> bytes \<Rightarrow> bytes" where
  "xor_into result hs = fold (\<lambda>i r. r[i := (r ! i) XOR (hs ! i)]) [0..<length result] result"

definition xorTransactions :: "(bytes \<Rightarrow> bytes) \<Rightarrow> bytes list \<Rightarrow> bytes" where
  "xorTransactions sha ts = fold (\<lambda>t result. xor_into result (sha t)) ts (replicate sha256_Size 0)"

text \<open>The comparison closure of \<^verbatim>\<open>sortWithSalt\<close>, on the elements at the two indices.
  The salt has length and capacity 32, so \<^verbatim>\<open>append(salt, ts[i]...)\<close> is the
  concatenation and leaves the salt as it was.\<close>

definition salted_less :: "(bytes \<Rightarrow> bytes) \<Rightarrow> bytes \<Rightarrow> bytes \<Rightarrow> bytes \<Rightarrow> bool" where
  "salted_less sha salt a b \<longleftrightarrow> bytes_Compare (sha (salt @ a)) (sha (salt @ b)) = -1"

text \<open>\<^verbatim>\<open>sort.Slice\<close> of the Go standard library is the parameter \<open>srt\<close>. Its documented
  contract: the result is a rearrangement of the slice in which no later element is less
  than an earlier one; the sort is not guaranteed to be stable.\<close>

definition sort_Slice_contract ::
  "(('a \<Rightarrow> 'a \<Rightarrow> bool) \<Rightarrow> 'a list \<Rightarrow> 'a list) \<Rightarrow> ('a \<Rightarrow> 'a \<Rightarrow> bool) \<Rightarrow> bool" where
  "sort_Slice_contract srt lt \<longleftrightarrow>
     (\<forall>xs. mset (srt lt xs) = mset xs \<and> sorted_wrt (\<lambda>a b. \<not> lt b a) (srt lt xs))"

definition sortWithSalt ::
  "((bytes \<Rightarrow> bytes \<Rightarrow> bool) \<Rightarrow> bytes list \<Rightarrow> bytes list) \<Rightarrow> (bytes \<Rightarrow> bytes)
     \<Rightarrow> bytes list \<Rightarrow> bytes \<Rightarrow> bytes list" where
  "sortWithSalt srt sha ts salt = srt (salted_less sha salt) ts"

text \<open>\<^verbatim>\<open>network.Marshal\<close> and \<^verbatim>\<open>network.Unmarshal\<close> of the onet library are the
  parameters \<open>marshal\<close> and \<open>unmarshal\<close>. An unmarshalled message is a transaction or a
  value of another registered type.\<close>

datatype message = MsgTransaction Transaction | MsgOther

fun marshal_all :: "(Transaction \<Rightarrow> error + bytes) \<Rightarrow> Transaction list \<Rightarrow> error + bytes list" where
  "marshal_all marshal [] = Inr []"
| "marshal_all marshal (t # ts) =
     (case marshal t of
        Inl err \<Rightarrow> Inl err
      | Inr b \<Rightarrow> (case marshal_all marshal ts of Inl err \<Rightarrow> Inl err | Inr bs \<Rightarrow> Inr (b # bs)))"

fun unmarshal_all :: "(bytes \<Rightarrow> error + message) \<Rightarrow> bytes list \<Rightarrow> error + Transaction list" where
  "unmarshal_all unmarshal [] = Inr []"
| "unmarshal_all unmarshal (b # bs) =
     (case unmarshal b of
        Inl err \<Rightarrow> Inl err
      | Inr MsgOther \<Rightarrow> Inl (ErrorsNew ''Data of wrong type'')
      | Inr (MsgTransaction t) \<Rightarrow>
          (case unmarshal_all unmarshal bs of Inl err \<Rightarrow> Inl err | Inr ts \<Rightarrow> Inr (t # ts)))"

text \<open>The last loop of \<^verbatim>\<open>sortTransactions\<close>:
  \<^verbatim>\<open>for i := range sortedTs { ts[i] = *sortedTs[i] }\<close>.\<close>

definition write_back :: "Transaction list \<Rightarrow> Transaction list \<Rightarrow> Transaction list" where
  "write_back sortedTs ts = fold (\<lambda>i acc. acc[i := sortedTs ! i]) [0..<length sortedTs] ts"

text \<open>\<^verbatim>\<open>sortTransactions\<close> returns its error together with the slice \<open>ts\<close> as the call
  leaves it.\<close>

definition sortTransactions ::
  "(Transaction \<Rightarrow> error + bytes) \<Rightarrow> (bytes \<Rightarrow> error + message)
     \<Rightarrow> ((bytes \<Rightarrow> bytes \<Rightarrow> bool) \<Rightarrow> bytes list \<Rightarrow> bytes list) \<Rightarrow> (bytes \<Rightarrow> bytes)
     \<Rightarrow> Transaction list \<Rightarrow> error option \<times> Transaction list" where
  "sortTransactions marshal unmarshal srt sha ts =
     (case marshal_all marshal ts of
        Inl err \<Rightarrow> (Some err, ts)
      | Inr bs \<Rightarrow>
          (let salt = xorTransactions sha bs;
               bs' = sortWithSalt srt sha bs salt
           in case unmarshal_all unmarshal bs' of
                Inl err \<Rightarrow> (Some err, ts)
              | Inr sortedTs \<Rightarrow> (None, write_back sortedTs ts)))"

subsection \<open>The algorithm in the words of the specification\<close>

text \<open>Section 4.3, step 2: the salt is the bitwise XOR of the 256-bit hashes of all the
  serialized transactions: its byte \<open>i\<close> is the XOR of byte \<open>i\<close> of every hash.\<close>

definition salt_spec :: "(bytes \<Rightarrow> bytes) \<Rightarrow> bytes list \<Rightarrow> bytes" where
  "salt_spec sha bs = map (\<lambda>i. fold (\<lambda>b acc. acc XOR (sha b ! i)) bs 0) [0..<32]"

text \<open>Section 4.3, step 3: a hash read as an unsigned big-endian number.\<close>

definition be_nat :: "bytes \<Rightarrow> nat" where
  "be_nat bs = foldl (\<lambda>n b. 256 * n + unat b) 0 bs"

subsection \<open>Instances of the library parameters\<close>

text \<open>Insertion sort is one function that meets the contract of \<^verbatim>\<open>sort.Slice\<close>.\<close>

fun insert_by :: "('a \<Rightarrow> 'a \<Rightarrow> bool) \<Rightarrow> 'a \<Rightarrow> 'a list \<Rightarrow> 'a list" where
  "insert_by lt x [] = [x]"
| "insert_by lt x (y # ys) = (if lt x y then x # y # ys else y # insert_by lt x ys)"

definition insertion_sort :: "('a \<Rightarrow> 'a \<Rightarrow> bool) \<Rightarrow> 'a list \<Rightarrow> 'a list" where
  "insertion_sort lt xs = foldr (insert_by lt) xs []"

text \<open>A toy digest of 32 bytes (the last bytes of the input, last first, filled up with
  zeros), a marshalling that writes the key, and the unmarshalling that reads it back:
  small functions on which the definitions can be run.\<close>

definition tail32 :: "bytes \<Rightarrow> bytes" where
  "tail32 b = take 32 (rev b @ replicate 32 0)"

definition key_tx :: "bytes \<Rightarrow> Transaction" where
  "key_tx k = \<lparr>Action = Create, Key = k, Kind = [], Value = [], Valid = False, Signatures = []\<rparr>"

definition marshal_key :: "Transaction \<Rightarrow> error + bytes" where
  "marshal_key t = Inr (Key t)"

definition unmarshal_key :: "bytes \<Rightarrow> error + message" where
  "unmarshal_key b = Inr (MsgTransaction (key_tx b))"

definition marshal_no_x :: "Transaction \<Rightarrow> error + bytes" where
  "marshal_no_x t =
     (if Key t = bytes_of ''x'' then Inl (LibraryError ''cannot marshal'') else Inr (Key t))"

definition unmarshal_no_x :: "bytes \<Rightarrow> error + message" where
  "unmarshal_no_x b =
     (if b = bytes_of ''x'' then Inl (LibraryError ''cannot unmarshal'')
      else if b = bytes_of ''y'' then Inr MsgOther
      else Inr (MsgTransaction (key_tx b)))"

subsection \<open>Concrete batches\<close>

text \<open>Three transactions with the keys "x", "y" and "z", in the order 1, 2, 3 and in the
  order 3, 1, 2; and the two with the keys "z" and "y".\<close>

definition batch_123 :: "Transaction list" where
  "batch_123 = [key_tx (bytes_of ''x''), key_tx (bytes_of ''y''), key_tx (bytes_of ''z'')]"

definition batch_312 :: "Transaction list" where
  "batch_312 = [key_tx (bytes_of ''z''), key_tx (bytes_of ''x''), key_tx (bytes_of ''y'')]"

definition batch_zy :: "Transaction list" where
  "batch_zy = [key_tx (bytes_of ''z''), key_tx (bytes_of ''y'')]"

subsection \<open>Concrete stores\<close>

definition mk_tx :: "string \<Rightarrow> string \<Rightarrow> string \<Rightarrow> Transaction" where
  "mk_tx knd k v =
     \<lparr>Action = Update, Key = bytes_of k, Kind = bytes_of knd, Value = bytes_of v,
      Valid = False, Signatures = []\<rparr>"

definition io_ok :: "bytes \<Rightarrow> bytes \<Rightarrow> error option" where
  "io_ok k v = None"

definition io_fail :: "bytes \<Rightarrow> bytes \<Rightarrow> error option" where
  "io_fail k v = Some (LibraryError ''write failed'')"

definition io_fail_kind :: "bytes \<Rightarrow> bytes \<Rightarrow> error option" where
  "io_fail_kind k v =
     (if k = keykind_of (bytes_of ''x'') then Some (LibraryError ''write failed'') else None)"

text \<open>The store that \<^verbatim>\<open>newCollectionDB\<close> returns over an empty bucket called
  "omniledger"; the same after storing kind "a", key "x", value "1"; after storing value
  "2" on top; after storing kind "b", key "x", value "2" on top; and the store that
  \<^verbatim>\<open>newCollectionDB\<close> returns over the bucket that the first of these wrote.\<close>

definition fresh_store :: "bool \<Rightarrow> collectionDB" where
  "fresh_store pol =
     loadAll \<lparr>db = [], bucketName = bytes_of ''omniledger'', coll = coll_New pol\<rparr>"

definition stored_1 :: "bool \<Rightarrow> collectionDB" where
  "stored_1 pol = snd (Store io_ok (fresh_store pol) (mk_tx ''a'' ''x'' ''1''))"

definition stored_1_2 :: "bool \<Rightarrow> collectionDB" where
  "stored_1_2 pol = snd (Store io_ok (stored_1 pol) (mk_tx ''a'' ''x'' ''2''))"

definition stored_a_b :: "bool \<Rightarrow> collectionDB" where
  "stored_a_b pol = snd (Store io_ok (stored_1 pol) (mk_tx ''b'' ''x'' ''2''))"

definition reopened_1 :: "bool \<Rightarrow> collectionDB" where
  "reopened_1 pol =
     loadAll \<lparr>db = db (stored_1 pol), bucketName = bytes_of ''omniledger'',
       coll = coll_New pol\<rparr>"

subsection \<open>The stores that the code can build\<close>


text \<open>Every entry of the collection is a pair of byte sequences, a value and a kind.\<close>

definition two_byte_values :: "collection \<Rightarrow> bool" where
  "two_byte_values c \<longleftrightarrow>
     (\<forall>k vs. entries c k = Some vs \<longrightarrow> (\<exists>v kd. vs = [VBytes v, VBytes kd]))"

section \<open>Evaluation of the concrete stores\<close>

lemma replicate_4: "replicate 4 x = [x, x, x, x]"
  by (simp add: eval_nat_numeral)

lemmas store_defs = replicate_4 fresh_store_def stored_1_def stored_1_2_def stored_a_b_def
  reopened_1_def loadAll_def coll_New_def Store_def Store_write_def
  db_Update_def bucket_Put_def bucket_Get_def coll_Add_def io_ok_def mk_tx_def bytes_of_def
  keykind_of_def copy_bytes_def

lemmas get_defs = GetValueKind_def GetValueKind_record_def GetValueKind_values_def
  coll_Get_Record_def record_Values_def

lemma mk_tx_sel:
  "Key (mk_tx knd k v) = bytes_of k" "Kind (mk_tx knd k v) = bytes_of knd"
  "Value (mk_tx knd k v) = bytes_of v"
  by (simp_all add: mk_tx_def)

lemma stored_1_eq:
  "stored_1 pol =
     \<lparr>db = [(bytes_of ''x'', bytes_of ''1''), (keykind_of (bytes_of ''x''), bytes_of ''a'')],
      bucketName = bytes_of ''omniledger'',
      coll = \<lparr>entries = [bytes_of ''x'' \<mapsto> [VBytes (bytes_of ''1''), VBytes (bytes_of ''a'')]],
              strict = pol\<rparr>\<rparr>"
  by (simp add: store_defs)

section \<open>The bucket and Store\<close>

lemma keykind_of_eq: "keykind_of key = key @ replicate 4 0 @ bytes_of ''kind''"
  by (simp add: keykind_of_def copy_bytes_def)

lemma keykind_of_neq: "keykind_of key \<noteq> key" "key \<noteq> keykind_of key"
  by (simp_all add: keykind_of_eq)

lemma map_of_bucket_insert: "map_of (bucket_insert k v b) = (map_of b)(k \<mapsto> v)"
  by (induction b) (auto simp: fun_upd_twist)

lemma bucket_Get_insert:
  "bucket_Get (bucket_insert k v b) k' = (if k' = k then v else bucket_Get b k')"
  by (simp add: bucket_Get_def map_of_bucket_insert)

lemma Store_fst: "fst (Store io c t) = fst (db_Update (db c) (Store_write io t))"
  by (simp add: Store_def split: prod.splits)

lemma Store_coll:
  "coll (snd (Store io c t)) = snd (coll_Add (coll c) (Key t) [VBytes (Value t), VBytes (Kind t)])"
  by (simp add: Store_def split: prod.splits)

lemma Store_db: "db (snd (Store io c t)) = snd (db_Update (db c) (Store_write io t))"
  by (simp add: Store_def split: prod.splits)

lemma Store_write_ok:
  "io (Key t) (Value t) = None \<Longrightarrow> io (keykind_of (Key t)) (Kind t) = None \<Longrightarrow>
   Store_write io t b =
     Inr (bucket_insert (keykind_of (Key t)) (Kind t) (bucket_insert (Key t) (Value t) b))"
  by (simp add: Store_write_def bucket_Put_def)

section \<open>tryHash\<close>

lemma coll_Remove_snd:
  "snd (coll_Remove c k) = c\<lparr>entries := (entries c)(k := None)\<rparr>"
  by (cases "entries c k") (simp_all add: coll_Remove_def fun_upd_idem)

lemma run_deferred_fst:
  "fst (run_deferred ks (c, mr, rerr)) = c\<lparr>entries := entries c |` (- set ks)\<rparr>"
proof (induction ks arbitrary: c mr rerr)
  case Nil
  show ?case by simp
next
  case (Cons k ks)
  have r: "((entries c)(k := None)) |` (- set ks) = entries c |` (- set (k # ks))"
    by (rule ext) (simp add: restrict_map_def)
  obtain e c' where rm: "coll_Remove c k = (e, c')" by (cases "coll_Remove c k")
  then have c': "c' = c\<lparr>entries := (entries c)(k := None)\<rparr>"
    using coll_Remove_snd [of c k] by simp
  have step: "fst (run_deferred (k # ks) (c, mr, rerr)) = c'\<lparr>entries := entries c' |` (- set ks)\<rparr>"
    using rm Cons.IH [of c'] by (cases e) simp_all
  have "c'\<lparr>entries := entries c' |` (- set ks)\<rparr> = c\<lparr>entries := ((entries c)(k := None)) |` (- set ks)\<rparr>"
    unfolding c' by simp
  also have "\<dots> = c\<lparr>entries := entries c |` (- set (k # ks))\<rparr>"
    unfolding r ..
  finally show ?case using step by simp
qed

lemma coll_Add_cases:
  "coll_Add c k vs = (e, c') \<Longrightarrow>
     (e = Some DuplicateKeyError \<and> c' = c \<and> strict c \<and> entries c k \<noteq> None) \<or>
     (e = None \<and> c' = c\<lparr>entries := (entries c)(k \<mapsto> vs)\<rparr> \<and> (strict c \<longrightarrow> entries c k = None))"
  by (auto simp: coll_Add_def split: option.splits if_splits)

lemma tryHash_add_inv:
  "tryHash_add c ts d = (c1, d1, e) \<Longrightarrow>
     \<exists>added. d1 = added @ d \<and> strict c1 = strict c \<and> set added \<subseteq> Key ` set ts
       \<and> entries c1 |` (- set added) = entries c |` (- set added)
       \<and> (strict c \<longrightarrow> (\<forall>k\<in>set added. entries c k = None))"
proof (induction ts arbitrary: c d)
  case Nil
  then show ?case by simp
next
  case (Cons t ts)
  obtain e0 c0 where a: "coll_Add c (Key t) [VBytes (Value t), VBytes (Kind t)] = (e0, c0)"
    by (cases "coll_Add c (Key t) [VBytes (Value t), VBytes (Kind t)]")
  from coll_Add_cases [OF a] show ?case
  proof
    assume h: "e0 = Some DuplicateKeyError \<and> c0 = c \<and> strict c \<and> entries c (Key t) \<noteq> None"
    with Cons.prems a have "c1 = c" "d1 = d" by simp_all
    then show ?thesis by simp
  next
    assume h: "e0 = None \<and> c0 = c\<lparr>entries := (entries c)(Key t \<mapsto> [VBytes (Value t), VBytes (Kind t)])\<rparr>
       \<and> (strict c \<longrightarrow> entries c (Key t) = None)"
    with Cons.prems a have "tryHash_add c0 ts (Key t # d) = (c1, d1, e)" by simp
    from Cons.IH [OF this] obtain added where
      ad: "d1 = added @ Key t # d" "strict c1 = strict c0" "set added \<subseteq> Key ` set ts"
        "entries c1 |` (- set added) = entries c0 |` (- set added)"
        "strict c0 \<longrightarrow> (\<forall>k\<in>set added. entries c0 k = None)"
      by blast
    let ?added = "added @ [Key t]"
    have 1: "d1 = ?added @ d" using ad(1) by simp
    have 2: "strict c1 = strict c" using ad(2) h by simp
    have 3: "set ?added \<subseteq> Key ` set (t # ts)" using ad(3) by auto
    have 4: "entries c1 |` (- set ?added) = entries c |` (- set ?added)"
    proof (rule ext)
      fix k
      show "(entries c1 |` (- set ?added)) k = (entries c |` (- set ?added)) k"
      proof (cases "k \<in> set ?added")
        case True
        then have "k \<notin> - set ?added" by blast
        then show ?thesis unfolding restrict_map_def by (simp only: if_False)
      next
        case False
        then have "k \<notin> set added" "k \<noteq> Key t" by auto
        moreover from ad(4) have "(entries c1 |` (- set added)) k = (entries c0 |` (- set added)) k"
          by simp
        ultimately show ?thesis using h False by (simp add: restrict_map_def)
      qed
    qed
    have 5: "strict c \<longrightarrow> (\<forall>k\<in>set ?added. entries c k = None)"
    proof (intro impI ballI)
      fix k assume s: "strict c" and k: "k \<in> set ?added"
      show "entries c k = None"
      proof (cases "k = Key t")
        case True
        then show ?thesis using h s by simp
      next
        case False
        with k have ka: "k \<in> set added" by simp
        from s h have "strict c0" by simp
        with ad(5) ka have "entries c0 k = None" by blast
        with h False show ?thesis by (simp split: if_splits)
      qed
    qed
    from 1 2 3 4 5 show ?thesis by blast
  qed
qed

lemma restrict_fresh: "\<forall>k\<in>A. m k = None \<Longrightarrow> m |` (- A) = m"
  by (rule ext) (auto simp: restrict_map_def)

lemma tryHash_coll:
  fixes dg :: "(bytes \<rightharpoonup> dynval list) \<Rightarrow> 'h"
  assumes "strict (coll c) \<or> (\<forall>t\<in>set ts. entries (coll c) (Key t) = None)"
  shows "snd (tryHash dg c ts) = c"
proof -
  obtain c1 d1 e where a: "tryHash_add (coll c) ts [] = (c1, d1, e)"
    by (cases "tryHash_add (coll c) ts []")
  from tryHash_add_inv [OF a] obtain added where
    ad: "d1 = added" "strict c1 = strict (coll c)" "set added \<subseteq> Key ` set ts"
      "entries c1 |` (- set added) = entries (coll c) |` (- set added)"
      "strict (coll c) \<longrightarrow> (\<forall>k\<in>set added. entries (coll c) k = None)"
    by auto
  have fresh: "\<forall>k\<in>set added. entries (coll c) k = None"
    using assms ad(3,5) by auto
  have fin: "c1\<lparr>entries := entries c1 |` (- set d1)\<rparr> = coll c"
    using ad(1,2,4) restrict_fresh [OF fresh] by simp
  have "\<And>mr rerr. fst (run_deferred d1 (c1, mr, rerr)) = coll c"
    using fin by (simp add: run_deferred_fst)
  then have run: "\<And>mr rerr. \<exists>mr' rerr'. run_deferred d1 (c1, mr, rerr) = (coll c, mr', rerr')"
    by (metis prod.collapse)
  show ?thesis
  proof (cases e)
    case None
    from run obtain mr' rerr' where
      "run_deferred d1 (c1, Some (coll_GetRoot dg c1), None) = (coll c, mr', rerr')" by blast
    with a None show ?thesis by (simp add: tryHash_def)
  next
    case (Some err)
    from run obtain mr' rerr' where
      "run_deferred d1 (c1, None :: 'h option, Some err) = (coll c, mr', rerr')" by blast
    with a Some show ?thesis by (simp add: tryHash_def)
  qed
qed

section \<open>The stores that the code can build\<close>


lemma newCollectionDB_reopened:
  "newCollectionDB pol (db (stored_1 pol)) (bytes_of ''omniledger'') = Returns (reopened_1 pol)"
  by (simp add: newCollectionDB_def reopened_1_def bytes_of_def)


lemma two_byte_values_Remove:
  "two_byte_values c \<Longrightarrow> two_byte_values (snd (coll_Remove c k))"
  by (auto simp: two_byte_values_def coll_Remove_def split: option.splits if_splits)








section \<open>Claims about the State Store\<close>

text \<open>\<^verbatim>\<open>tryHash\<close> undoes every successful add by a removal of the key. When the
  collection's add requires strict absence, or when no key of the batch is in the
  collection before the call, the store after \<^verbatim>\<open>tryHash\<close> is the store before it,
  whether the call returns a root or an error: the same collection, hence the same root
  hash and the same key set.\<close>

theorem tryHash_restores_collection:
  fixes dg :: "(bytes \<rightharpoonup> dynval list) \<Rightarrow> 'h"
  assumes "strict (coll c) \<or> (\<forall>t\<in>set ts. entries (coll c) (Key t) = None)"
  shows "snd (tryHash dg c ts) = c
       \<and> RootHash dg (snd (tryHash dg c ts)) = RootHash dg c
       \<and> dom (entries (coll (snd (tryHash dg c ts)))) = dom (entries (coll c))"
  using tryHash_coll [OF assms, of dg] by simp

text \<open>The same, run on the strict store that holds key "x": the batch adds "y", fails on
  "x", and the deferred removal takes "y" out again.\<close>

theorem tryHash_restores_collection_witness:
  "strict (coll (stored_1 True))
   \<and> fst (tryHash id (stored_1 True) [mk_tx ''a'' ''y'' ''3'', mk_tx ''a'' ''x'' ''2''])
        = (None, Some DuplicateKeyError)
   \<and> snd (tryHash id (stored_1 True) [mk_tx ''a'' ''y'' ''3'', mk_tx ''a'' ''x'' ''2''])
        = stored_1 True"
proof -
  let ?ts = "[mk_tx ''a'' ''y'' ''3'', mk_tx ''a'' ''x'' ''2'']"
  have s: "strict (coll (stored_1 True))"
    by (simp add: stored_1_eq)
  then have h: "strict (coll (stored_1 True))
      \<or> (\<forall>t\<in>set ?ts. entries (coll (stored_1 True)) (Key t) = None)"
    by (rule disjI1)
  have r: "fst (tryHash id (stored_1 True) ?ts) = (None, Some DuplicateKeyError)"
    by (simp add: stored_1_eq tryHash_def coll_Add_def coll_Remove_def mk_tx_def bytes_of_def)
  from tryHash_restores_collection [OF h, of id]
  have "snd (tryHash id (stored_1 True) ?ts) = stored_1 True"
    by (rule conjunct1)
  with s r show ?thesis by simp
qed


text \<open>Claim C2 on the code: one transaction (kind "a", key "x", value "1") is stored in a
  new store, and the store is opened again over the bucket so written. \<^verbatim>\<open>Store\<close> wrote
  the kind under key, four zero bytes, "kind"; \<^verbatim>\<open>loadAll\<close> reads key + "sig", finds
  nothing, and adds every bucket key, the kind's own key included. The reopened collection
  holds two entries with an empty second value; the original holds one entry. The root
  hashes differ for the digest that is the contents themselves, and so for every digest
  that tells these two contents apart.\<close>

theorem reopened_store_differs:
  "newCollectionDB pol (db (stored_1 pol)) (bytes_of ''omniledger'') = Returns (reopened_1 pol)
   \<and> entries (coll (reopened_1 pol)) =
     [bytes_of ''x'' \<mapsto> [VBytes (bytes_of ''1''), VBytes []],
      keykind_of (bytes_of ''x'') \<mapsto> [VBytes (bytes_of ''a''), VBytes []]]
   \<and> entries (coll (stored_1 pol)) =
     [bytes_of ''x'' \<mapsto> [VBytes (bytes_of ''1''), VBytes (bytes_of ''a'')]]
   \<and> coll (reopened_1 pol) \<noteq> coll (stored_1 pol)
   \<and> RootHash id (reopened_1 pol) \<noteq> RootHash id (stored_1 pol)"
proof -
  have 1: "entries (coll (reopened_1 pol)) =
     [bytes_of ''x'' \<mapsto> [VBytes (bytes_of ''1''), VBytes []],
      keykind_of (bytes_of ''x'') \<mapsto> [VBytes (bytes_of ''a''), VBytes []]]"
    by (simp add: store_defs)
  have 2: "entries (coll (stored_1 pol)) =
     [bytes_of ''x'' \<mapsto> [VBytes (bytes_of ''1''), VBytes (bytes_of ''a'')]]"
    by (simp add: stored_1_eq)
  have 3: "entries (coll (reopened_1 pol)) (bytes_of ''x'')
      \<noteq> entries (coll (stored_1 pol)) (bytes_of ''x'')"
    unfolding 1 2 by (simp add: keykind_of_neq bytes_of_def)
  then have 4: "coll (reopened_1 pol) \<noteq> coll (stored_1 pol)"
    by auto
  from 3 have 5: "RootHash id (reopened_1 pol) \<noteq> RootHash id (stored_1 pol)"
    by (auto simp: RootHash_def coll_GetRoot_def)
  show ?thesis by (intro conjI) (fact newCollectionDB_reopened 1 2 4 5)+
qed

text \<open>Claim C3 on the code, with a collection whose add requires strict absence: after
  storing value "1" and then value "2" under kind "a" and key "x", the second
  \<^verbatim>\<open>Store\<close> returns no error and the bucket holds "2", but the collection is the one
  left by the first \<^verbatim>\<open>Store\<close>: \<^verbatim>\<open>GetValueKind\<close> returns "1" with kind "a", and the
  root hash is that of the first store for every digest function. (With a collection whose
  add overwrites, \<^verbatim>\<open>GetValueKind\<close> returns "2".)\<close>

theorem second_Store_not_visible:
  "GetValueKind (stored_1_2 True) (bytes_of ''x'') = Returns (bytes_of ''1'', bytes_of ''a'', None)
   \<and> fst (Store io_ok (stored_1 True) (mk_tx ''a'' ''x'' ''2'')) = None
   \<and> bucket_Get (db (stored_1_2 True)) (bytes_of ''x'') = bytes_of ''2''
   \<and> coll (stored_1_2 True) = coll (stored_1 True)
   \<and> (\<forall>dg :: (bytes \<rightharpoonup> dynval list) \<Rightarrow> bytes.
         RootHash dg (stored_1_2 True) = RootHash dg (stored_1 True))
   \<and> GetValueKind (stored_1_2 False) (bytes_of ''x'') = Returns (bytes_of ''2'', bytes_of ''a'', None)"
proof -
  have c: "coll (stored_1_2 True) = coll (stored_1 True)"
    by (simp add: store_defs)
  have "GetValueKind (stored_1_2 True) (bytes_of ''x'') = Returns (bytes_of ''1'', bytes_of ''a'', None)"
    "fst (Store io_ok (stored_1 True) (mk_tx ''a'' ''x'' ''2'')) = None"
    "bucket_Get (db (stored_1_2 True)) (bytes_of ''x'') = bytes_of ''2''"
    "GetValueKind (stored_1_2 False) (bytes_of ''x'') = Returns (bytes_of ''2'', bytes_of ''a'', None)"
    by (simp_all add: store_defs get_defs)
  with c show ?thesis by (simp add: RootHash_def)
qed

text \<open>Claim C4 on the code: kind "a", key "x", value "1" is stored, then kind "b", key
  "x", value "2". \<^verbatim>\<open>Store\<close> adds under the bare key: with either policy of the
  collection there is one entry, under "x", and none under "a:x" or "b:x". With strict
  absence the second transaction is not taken; with overwriting it replaces the first.\<close>

theorem Store_key_is_user_key:
  "entries (coll (stored_a_b True)) =
     [bytes_of ''x'' \<mapsto> [VBytes (bytes_of ''1''), VBytes (bytes_of ''a'')]]
   \<and> entries (coll (stored_a_b False)) =
     [bytes_of ''x'' \<mapsto> [VBytes (bytes_of ''2''), VBytes (bytes_of ''b'')]]
   \<and> entries (coll (stored_a_b True)) (bytes_of ''a:x'') = None
   \<and> entries (coll (stored_a_b True)) (bytes_of ''b:x'') = None
   \<and> entries (coll (stored_a_b False)) (bytes_of ''a:x'') = None
   \<and> entries (coll (stored_a_b False)) (bytes_of ''b:x'') = None"
  by (simp add: store_defs)

text \<open>For a key that the collection does not hold, \<^verbatim>\<open>GetValueKind\<close> returns the
  not-found error.\<close>

lemma GetValueKind_absent:
  "entries (coll c) key = None \<Longrightarrow> GetValueKind c key = Returns ([], [], Some NotFoundError)"
  by (simp add: GetValueKind_def coll_Get_Record_def)

text \<open>The part of \<^verbatim>\<open>GetValueKind\<close> after the values are read panics on exactly the
  lists of one byte sequence; on every other list it returns.\<close>

lemma GetValueKind_values_Panics_iff:
  "(\<exists>s. GetValueKind_values hashes = Panics s) \<longleftrightarrow> (\<exists>v. hashes = [VBytes v])"
proof (cases hashes)
  case Nil
  then show ?thesis by (simp add: GetValueKind_values_def)
next
  case (Cons h rest)
  show ?thesis
  proof (cases rest)
    case Nil
    with Cons show ?thesis by (cases h) (simp_all add: GetValueKind_values_def)
  next
    case (Cons h2 rest2)
    with \<open>hashes = h # rest\<close> show ?thesis
      by (cases h; cases h2) (simp_all add: GetValueKind_values_def)
  qed
qed



text \<open>Claim C9. When the write of the value fails, or the write of the value succeeds and
  the write of the kind fails, \<^verbatim>\<open>Store\<close> returns that error and the bucket is as
  before (the transaction of \<^verbatim>\<open>db.Update\<close> writes nothing, the value included), while
  the collection is the one the add left: nothing is rolled back, so whenever the add went
  through the collection still holds the transaction's value and kind under its key.\<close>

theorem Store_write_failure_keeps_entry:
  assumes "io (Key t) (Value t) = Some err
     \<or> (io (Key t) (Value t) = None \<and> io (keykind_of (Key t)) (Kind t) = Some err)"
  shows "fst (Store io c t) = Some err
       \<and> db (snd (Store io c t)) = db c
       \<and> coll (snd (Store io c t)) =
           snd (coll_Add (coll c) (Key t) [VBytes (Value t), VBytes (Kind t)])
       \<and> (fst (coll_Add (coll c) (Key t) [VBytes (Value t), VBytes (Kind t)]) = None \<longrightarrow>
            entries (coll (snd (Store io c t))) (Key t) = Some [VBytes (Value t), VBytes (Kind t)])"
proof -
  have w: "Store_write io t (db c) = Inl err"
    using assms by (auto simp: Store_write_def bucket_Put_def)
  then show ?thesis
    by (auto simp: Store_fst Store_coll Store_db db_Update_def coll_Add_def
        split: option.splits if_splits)
qed

text \<open>Claim C9, run on a new store with a bucket that refuses every write, and with a
  bucket that takes the value and refuses the kind.\<close>

theorem Store_write_failure_keeps_entry_witness:
  "io_fail (bytes_of ''x'') (bytes_of ''1'') = Some (LibraryError ''write failed'')
   \<and> fst (Store io_fail (fresh_store True) (mk_tx ''a'' ''x'' ''1''))
     = Some (LibraryError ''write failed'')
   \<and> io_fail_kind (bytes_of ''x'') (bytes_of ''1'') = None
   \<and> io_fail_kind (keykind_of (bytes_of ''x'')) (bytes_of ''a'') = Some (LibraryError ''write failed'')
   \<and> fst (Store io_fail_kind (fresh_store True) (mk_tx ''a'' ''x'' ''1''))
     = Some (LibraryError ''write failed'')
   \<and> db (snd (Store io_fail_kind (fresh_store True) (mk_tx ''a'' ''x'' ''1''))) = []
   \<and> entries (coll (fresh_store True)) (bytes_of ''x'') = None
   \<and> entries (coll (snd (Store io_fail_kind (fresh_store True) (mk_tx ''a'' ''x'' ''1''))))
       (bytes_of ''x'') = Some [VBytes (bytes_of ''1''), VBytes (bytes_of ''a'')]"
proof -
  let ?t = "mk_tx ''a'' ''x'' ''1''"
  let ?e = "LibraryError ''write failed''"
  have f1: "io_fail (bytes_of ''x'') (bytes_of ''1'') = Some ?e"
    by (simp add: io_fail_def)
  then have h1: "io_fail (Key ?t) (Value ?t) = Some ?e
     \<or> (io_fail (Key ?t) (Value ?t) = None \<and> io_fail (keykind_of (Key ?t)) (Kind ?t) = Some ?e)"
    by (simp add: mk_tx_sel)
  have f2: "io_fail_kind (bytes_of ''x'') (bytes_of ''1'') = None"
    and f3: "io_fail_kind (keykind_of (bytes_of ''x'')) (bytes_of ''a'') = Some ?e"
    by (simp_all add: io_fail_kind_def keykind_of_neq)
  then have h2: "io_fail_kind (Key ?t) (Value ?t) = Some ?e
     \<or> (io_fail_kind (Key ?t) (Value ?t) = None
         \<and> io_fail_kind (keykind_of (Key ?t)) (Kind ?t) = Some ?e)"
    by (simp add: mk_tx_sel)
  have d: "db (fresh_store True) = []"
    and e: "entries (coll (fresh_store True)) (bytes_of ''x'') = None"
    by (simp_all add: store_defs)
  then have a: "fst (coll_Add (coll (fresh_store True)) (Key ?t)
      [VBytes (Value ?t), VBytes (Kind ?t)]) = None"
    by (simp add: coll_Add_def mk_tx_sel)
  have 1: "fst (Store io_fail (fresh_store True) ?t) = Some ?e"
    by (rule Store_write_failure_keeps_entry [OF h1, THEN conjunct1])
  note T = Store_write_failure_keeps_entry [OF h2, of "fresh_store True"]
  have 2: "fst (Store io_fail_kind (fresh_store True) ?t) = Some ?e"
    by (rule T [THEN conjunct1])
  have 3: "db (snd (Store io_fail_kind (fresh_store True) ?t)) = []"
    using T [THEN conjunct2, THEN conjunct1] d by simp
  have 4: "entries (coll (snd (Store io_fail_kind (fresh_store True) ?t))) (bytes_of ''x'')
       = Some [VBytes (bytes_of ''1''), VBytes (bytes_of ''a'')]"
    using T [THEN conjunct2, THEN conjunct2, THEN conjunct2, THEN mp, OF a]
    by (simp add: mk_tx_sel)
  show ?thesis by (intro conjI) (fact f1 1 f2 f3 2 3 e 4)+
qed

text \<open>Claim C10. The error of the collection's add is dropped: for every transaction,
  what \<^verbatim>\<open>Store\<close> returns is what the bucket write returns. When the add fails and the
  two bucket writes go through, \<^verbatim>\<open>Store\<close> returns no error, the bucket holds the
  transaction's value under the key and its kind under the kind's key, and the collection
  is unchanged: unless the entry it already held is the very value and kind just written,
  the collection and the bucket now hold different contents for that key.\<close>

theorem Store_discards_Add_error:
  "fst (Store io c t) = fst (db_Update (db c) (Store_write io t))
   \<and> (fst (coll_Add (coll c) (Key t) [VBytes (Value t), VBytes (Kind t)]) \<noteq> None
        \<and> io (Key t) (Value t) = None \<and> io (keykind_of (Key t)) (Kind t) = None \<longrightarrow>
      fst (Store io c t) = None
      \<and> bucket_Get (db (snd (Store io c t))) (Key t) = Value t
      \<and> bucket_Get (db (snd (Store io c t))) (keykind_of (Key t)) = Kind t
      \<and> coll (snd (Store io c t)) = coll c
      \<and> (entries (coll c) (Key t) \<noteq> Some [VBytes (Value t), VBytes (Kind t)] \<longrightarrow>
           entries (coll (snd (Store io c t))) (Key t) \<noteq>
             Some [VBytes (bucket_Get (db (snd (Store io c t))) (Key t)),
                   VBytes (bucket_Get (db (snd (Store io c t))) (keykind_of (Key t)))]))"
proof (intro conjI impI)
  show "fst (Store io c t) = fst (db_Update (db c) (Store_write io t))"
    by (rule Store_fst)
next
  assume h: "fst (coll_Add (coll c) (Key t) [VBytes (Value t), VBytes (Kind t)]) \<noteq> None
        \<and> io (Key t) (Value t) = None \<and> io (keykind_of (Key t)) (Kind t) = None"
  then have a: "snd (coll_Add (coll c) (Key t) [VBytes (Value t), VBytes (Kind t)]) = coll c"
    by (auto simp: coll_Add_def split: option.splits if_splits)
  from h have w: "Store_write io t (db c) =
     Inr (bucket_insert (keykind_of (Key t)) (Kind t) (bucket_insert (Key t) (Value t) (db c)))"
    by (simp add: Store_write_ok)
  show r: "fst (Store io c t) = None"
    using w by (simp add: Store_fst db_Update_def)
  show v: "bucket_Get (db (snd (Store io c t))) (Key t) = Value t"
    using w by (simp add: Store_db db_Update_def bucket_Get_insert keykind_of_neq)
  show k: "bucket_Get (db (snd (Store io c t))) (keykind_of (Key t)) = Kind t"
    using w by (simp add: Store_db db_Update_def bucket_Get_insert)
  show u: "coll (snd (Store io c t)) = coll c"
    using a by (simp add: Store_coll)
  assume "entries (coll c) (Key t) \<noteq> Some [VBytes (Value t), VBytes (Kind t)]"
  then show "entries (coll (snd (Store io c t))) (Key t) \<noteq>
             Some [VBytes (bucket_Get (db (snd (Store io c t))) (Key t)),
                   VBytes (bucket_Get (db (snd (Store io c t))) (keykind_of (Key t)))]"
    by (simp only: u v k not_False_eq_True)
qed

text \<open>Claim C10, run on the strict store that holds value "1" under "x": storing value
  "2" returns no error, the bucket holds "2", the collection still holds "1".\<close>

theorem Store_discards_Add_error_witness:
  "fst (coll_Add (coll (stored_1 True)) (bytes_of ''x'')
          [VBytes (bytes_of ''2''), VBytes (bytes_of ''a'')]) = Some DuplicateKeyError
   \<and> fst (Store io_ok (stored_1 True) (mk_tx ''a'' ''x'' ''2'')) = None
   \<and> bucket_Get (db (snd (Store io_ok (stored_1 True) (mk_tx ''a'' ''x'' ''2''))))
       (bytes_of ''x'') = bytes_of ''2''
   \<and> entries (coll (snd (Store io_ok (stored_1 True) (mk_tx ''a'' ''x'' ''2''))))
       (bytes_of ''x'') = Some [VBytes (bytes_of ''1''), VBytes (bytes_of ''a'')]"
proof -
  let ?t = "mk_tx ''a'' ''x'' ''2''"
  have e: "entries (coll (stored_1 True)) (bytes_of ''x'')
      = Some [VBytes (bytes_of ''1''), VBytes (bytes_of ''a'')]"
    and s: "strict (coll (stored_1 True))"
    by (simp_all add: stored_1_eq)
  then have a: "fst (coll_Add (coll (stored_1 True)) (Key ?t)
      [VBytes (Value ?t), VBytes (Kind ?t)]) = Some DuplicateKeyError"
    by (simp add: coll_Add_def mk_tx_sel)
  then have h: "fst (coll_Add (coll (stored_1 True)) (Key ?t)
      [VBytes (Value ?t), VBytes (Kind ?t)]) \<noteq> None
      \<and> io_ok (Key ?t) (Value ?t) = None \<and> io_ok (keykind_of (Key ?t)) (Kind ?t) = None"
    by (simp add: io_ok_def)
  note T = Store_discards_Add_error [of io_ok "stored_1 True" ?t, THEN conjunct2, THEN mp, OF h]
  have 1: "fst (Store io_ok (stored_1 True) ?t) = None"
    by (rule T [THEN conjunct1])
  have 2: "bucket_Get (db (snd (Store io_ok (stored_1 True) ?t))) (Key ?t) = Value ?t"
    by (rule T [THEN conjunct2, THEN conjunct1])
  have 3: "coll (snd (Store io_ok (stored_1 True) ?t)) = coll (stored_1 True)"
    by (rule T [THEN conjunct2, THEN conjunct2, THEN conjunct2, THEN conjunct1])
  from a e 1 2 3 show ?thesis by (simp add: mk_tx_sel)
qed

section \<open>The ordering protocol\<close>

lemma bytes_Compare_less: "bytes_Compare a b = -1 \<longleftrightarrow> a < b"
  by (induction a b rule: bytes_Compare.induct) auto

lemma salted_less_iff: "salted_less sha salt a b \<longleftrightarrow> sha (salt @ a) < sha (salt @ b)"
  by (simp add: salted_less_def bytes_Compare_less)

lemma sorted_wrt_salted:
  "sorted_wrt (\<lambda>a b. \<not> salted_less sha salt b a) xs = sorted (map (\<lambda>b. sha (salt @ b)) xs)"
  by (simp add: salted_less_iff sorted_map not_less)

lemma contract_salted:
  "sort_Slice_contract srt (salted_less sha salt) \<longleftrightarrow>
     (\<forall>xs. mset (srt (salted_less sha salt) xs) = mset xs
        \<and> sorted (map (\<lambda>b. sha (salt @ b)) (srt (salted_less sha salt) xs)))"
  by (simp add: sort_Slice_contract_def sorted_wrt_salted)

lemma sorted_perm_unique:
  fixes f :: "'a \<Rightarrow> 'k::linorder"
  assumes "mset xs = mset ys" "sorted (map f xs)" "sorted (map f ys)" "inj_on f (set xs)"
  shows "xs = ys"
proof -
  have s: "set ys = set xs" using assms(1) by (metis set_mset_mset)
  have flt: "filter (\<lambda>x. f k = f x) zs = filter (\<lambda>x. k = x) zs" if "k \<in> set xs" "set zs \<subseteq> set xs" for k zs
    using that assms(4) by (intro filter_cong refl) (auto dest: inj_onD)
  have cnt: "filter (\<lambda>x. k = x) xs = filter (\<lambda>x. k = x) ys" for k
  proof -
    have "length (filter (\<lambda>x. k = x) xs) = length (filter (\<lambda>x. k = x) ys)"
      using assms(1) by (metis mset_filter size_mset)
    moreover have "filter (\<lambda>x. k = x) zs = replicate (length (filter (\<lambda>x. k = x) zs)) k" for zs :: "'a list"
      by (induction zs) auto
    ultimately show ?thesis by metis
  qed
  have "sort_key f xs = xs"
    by (rule properties_for_sort_key) (use assms in auto)
  moreover have "sort_key f xs = ys"
  proof (rule properties_for_sort_key)
    show "mset ys = mset xs" using assms(1) by simp
    show "sorted (map f ys)" by fact
    fix k assume "k \<in> set ys"
    then have k: "k \<in> set xs" using s by simp
    show "filter (\<lambda>x. f k = f x) ys = filter (\<lambda>x. f k = f x) xs"
      using flt [OF k, of ys] flt [OF k, of xs] cnt [of k] s by simp
  qed
  ultimately show ?thesis by simp
qed

lemma mset_insert_by: "mset (insert_by lt x xs) = add_mset x (mset xs)"
  by (induction xs) auto

lemma set_insert_by: "set (insert_by lt x xs) = insert x (set xs)"
  by (induction xs) auto

lemma sorted_insert_by:
  fixes f :: "'a \<Rightarrow> 'k::linorder"
  assumes "\<And>a b. lt a b \<longleftrightarrow> f a < f b"
  shows "sorted (map f xs) \<Longrightarrow> sorted (map f (insert_by lt x xs))"
  by (induction xs) (auto simp: assms set_insert_by)

lemma insertion_sort_ok:
  fixes f :: "'a \<Rightarrow> 'k::linorder"
  assumes "\<And>a b. lt a b \<longleftrightarrow> f a < f b"
  shows "mset (insertion_sort lt xs) = mset xs \<and> sorted (map f (insertion_sort lt xs))"
  by (induction xs) (simp_all add: insertion_sort_def mset_insert_by sorted_insert_by [OF assms])

lemma insertion_sort_contract: "sort_Slice_contract insertion_sort (salted_less sha salt)"
  unfolding contract_salted
  using insertion_sort_ok [of "salted_less sha salt" "\<lambda>b. sha (salt @ b)"]
  by (simp add: salted_less_iff)

lemma fold_update_upt:
  "n \<le> length r \<Longrightarrow>
   fold (\<lambda>i r. r[i := g i (r ! i)]) [0..<n] r = map (\<lambda>i. g i (r ! i)) [0..<n] @ drop n r"
proof (induction n)
  case 0
  show ?case by simp
next
  case (Suc n)
  then have n: "n < length r" by simp
  let ?p = "map (\<lambda>i. g i (r ! i)) [0..<n]"
  have "fold (\<lambda>i r. r[i := g i (r ! i)]) [0..<Suc n] r = (?p @ drop n r)[n := g n ((?p @ drop n r) ! n)]"
    using Suc by simp
  also have "(?p @ drop n r) ! n = r ! n"
    using n by (simp add: nth_append)
  also have "(?p @ drop n r)[n := g n (r ! n)] = ?p @ (drop n r)[0 := g n (r ! n)]"
    by (simp add: list_update_append)
  also have "(drop n r)[0 := g n (r ! n)] = g n (r ! n) # drop (Suc n) r"
    using n by (simp add: Cons_nth_drop_Suc [symmetric])
  finally show ?case by simp
qed

lemma xor_into_eq: "xor_into result hs = map (\<lambda>i. (result ! i) XOR (hs ! i)) [0..<length result]"
  using fold_update_upt [of "length result" result "\<lambda>i x. x XOR (hs ! i)"]
  by (simp add: xor_into_def)

lemma write_back_eq: "length sortedTs = length ts \<Longrightarrow> write_back sortedTs ts = sortedTs"
proof -
  assume l: "length sortedTs = length ts"
  have "write_back sortedTs ts = map (\<lambda>i. sortedTs ! i) [0..<length sortedTs]"
    using fold_update_upt [of "length sortedTs" ts "\<lambda>i x. sortedTs ! i"] l
    by (simp add: write_back_def)
  then show ?thesis by (simp only: map_nth)
qed

lemma fold_xor_into:
  "fold (\<lambda>t result. xor_into result (sha t)) bs r =
     map (\<lambda>i. fold (\<lambda>b acc. acc XOR (sha b ! i)) bs (r ! i)) [0..<length r]"
proof (induction bs arbitrary: r)
  case Nil
  show ?case by (simp add: map_nth)
next
  case (Cons b bs)
  let ?r1 = "xor_into r (sha b)"
  have l: "length ?r1 = length r" by (simp add: xor_into_eq)
  have n: "?r1 ! i = (r ! i) XOR (sha b ! i)" if "i < length r" for i
    using that by (simp add: xor_into_eq)
  have "fold (\<lambda>t result. xor_into result (sha t)) (b # bs) r =
      map (\<lambda>i. fold (\<lambda>b acc. acc XOR (sha b ! i)) bs (?r1 ! i)) [0..<length ?r1]"
    using Cons.IH [of ?r1] by simp
  also have "\<dots> = map (\<lambda>i. fold (\<lambda>b acc. acc XOR (sha b ! i)) (b # bs) (r ! i)) [0..<length r]"
    unfolding l by (rule map_cong) (simp_all add: n)
  finally show ?case .
qed

lemma xorTransactions_spec: "xorTransactions sha bs = salt_spec sha bs"
  by (simp add: xorTransactions_def fold_xor_into salt_spec_def sha256_Size_def)

lemma length_xorTransactions: "length (xorTransactions sha bs) = 32"
  by (simp add: xorTransactions_spec salt_spec_def)

lemma xorTransactions_mset:
  assumes "mset bs' = mset bs"
  shows "xorTransactions sha bs' = xorTransactions sha bs"
proof -
  have "fold (\<lambda>b acc. acc XOR (sha b ! i)) bs' = fold (\<lambda>b acc. acc XOR (sha b ! i)) bs" for i
    by (rule fold_multiset_equiv [OF _ assms]) (auto simp: fun_eq_iff ac_simps)
  then show ?thesis by (simp add: xorTransactions_spec salt_spec_def)
qed

lemma foldl_be: "foldl (\<lambda>n b. 256 * n + unat (b::byte)) a xs = a * 256 ^ length xs + foldl (\<lambda>n b. 256 * n + unat b) 0 xs"
proof (induction xs arbitrary: a)
  case Nil
  show ?case by simp
next
  case (Cons x xs)
  show ?case
    using Cons.IH [of "256 * a + unat x"] Cons.IH [of "unat x"]
    by (simp add: algebra_simps)
qed

lemma be_nat_Nil: "be_nat [] = 0"
  by (simp add: be_nat_def)

lemma be_nat_Cons: "be_nat (x # xs) = unat x * 256 ^ length xs + be_nat xs"
  using foldl_be [of "unat x" xs] by (simp add: be_nat_def)

lemma be_nat_bound: "be_nat xs < 256 ^ length xs"
proof (induction xs)
  case Nil
  show ?case by (simp add: be_nat_Nil)
next
  case (Cons x xs)
  have "unat x < 256" using unsigned_less [of x, where ?'a = nat] by simp
  then have "unat x + 1 \<le> 256" by simp
  then have "(unat x + 1) * 256 ^ length xs \<le> 256 * 256 ^ length xs"
    by (rule mult_le_mono1)
  moreover have "unat x * 256 ^ length xs + be_nat xs < (unat x + 1) * 256 ^ length xs"
    using Cons by simp
  ultimately have "unat x * 256 ^ length xs + be_nat xs < 256 * 256 ^ length xs"
    by (rule less_le_trans [rotated])
  then show ?case by (simp add: be_nat_Cons)
qed

lemma be_nat_less:
  "length a = length b \<Longrightarrow> a < b \<longleftrightarrow> be_nat a < be_nat b"
proof (induction a b rule: list_induct2)
  case Nil
  show ?case by (simp add: be_nat_Nil)
next
  case (Cons x xs y ys)
  let ?p = "(256::nat) ^ length ys"
  have bnd_x: "be_nat xs < ?p" using be_nat_bound [of xs] Cons.hyps by simp
  have bnd_y: "be_nat ys < ?p" by (rule be_nat_bound)
  have lt: "unat u * ?p + be_nat us < unat v * ?p + be_nat vs"
    if "u < v" "be_nat us < ?p" for u v :: byte and us vs
  proof -
    have "unat u + 1 \<le> unat v" using that(1) by (simp add: word_less_nat_alt)
    then have "(unat u + 1) * ?p \<le> unat v * ?p" by (rule mult_le_mono1)
    with that(2) show ?thesis by simp
  qed
  show ?case
  proof (cases "x = y")
    case True
    with Cons show ?thesis by (simp add: be_nat_Cons)
  next
    case False
    then consider "x < y" | "y < x" by (meson linorder_neqE)
    then show ?thesis
    proof cases
      case 1
      with lt [OF 1 bnd_x, of ys] Cons.hyps show ?thesis by (simp add: be_nat_Cons)
    next
      case 2
      then have "\<not> x < y" "x \<noteq> y" by auto
      with lt [OF 2 bnd_y, of xs] Cons.hyps show ?thesis by (simp add: be_nat_Cons)
    qed
  qed
qed

lemma be_nat_le:
  "length a = length b \<Longrightarrow> a \<le> b \<Longrightarrow> be_nat a \<le> be_nat b"
  using be_nat_less [of a b] by (auto simp: order_le_less)

lemma sorted_be_nat:
  assumes "\<forall>b. length (sha b) = sha256_Size" "sorted (map (\<lambda>b. sha (salt @ b)) xs)"
  shows "sorted (map (\<lambda>b. be_nat (sha (salt @ b))) xs)"
proof -
  have "sorted_wrt (\<lambda>a b. sha (salt @ a) \<le> sha (salt @ b)) xs"
    using assms(2) by (simp add: sorted_map)
  then have "sorted_wrt (\<lambda>a b. be_nat (sha (salt @ a)) \<le> be_nat (sha (salt @ b))) xs"
    by (rule sorted_wrt_mono_rel [rotated]) (simp add: be_nat_le assms(1))
  then show ?thesis by (simp add: sorted_map)
qed

lemma marshal_all_Inr_D:
  "marshal_all m ts = Inr bs \<Longrightarrow> bs = map (\<lambda>t. projr (m t)) ts \<and> (\<forall>t\<in>set ts. \<not> isl (m t))"
  by (induction ts arbitrary: bs) (auto split: sum.splits)

lemma marshal_all_Inr_I:
  "\<forall>t\<in>set ts. \<not> isl (m t) \<Longrightarrow> marshal_all m ts = Inr (map (\<lambda>t. projr (m t)) ts)"
  by (induction ts) (auto split: sum.splits)

lemma marshal_all_Inl:
  "t \<in> set ts \<Longrightarrow> m t = Inl e \<Longrightarrow> \<exists>e'. marshal_all m ts = Inl e'"
  by (induction ts) (auto split: sum.splits)

lemma marshal_all_length: "marshal_all m ts = Inr bs \<Longrightarrow> length bs = length ts"
  by (drule marshal_all_Inr_D) simp

lemma marshal_all_mset:
  assumes "marshal_all m ts = Inr bs" "mset ts' = mset ts"
  shows "\<exists>bs'. marshal_all m ts' = Inr bs' \<and> mset bs' = mset bs"
proof -
  have s: "set ts' = set ts" using assms(2) by (metis set_mset_mset)
  from marshal_all_Inr_D [OF assms(1)]
  have bs: "bs = map (\<lambda>t. projr (m t)) ts" and r: "\<forall>t\<in>set ts'. \<not> isl (m t)"
    using s by simp_all
  have "mset (map (\<lambda>t. projr (m t)) ts') = mset bs"
    using assms(2) bs by simp
  with marshal_all_Inr_I [OF r] show ?thesis by blast
qed

lemma unmarshal_all_length: "unmarshal_all u bs = Inr ts \<Longrightarrow> length ts = length bs"
  by (induction bs arbitrary: ts) (auto split: sum.splits message.splits)

lemma unmarshal_all_Inl:
  "b \<in> set bs \<Longrightarrow> \<forall>t. u b \<noteq> Inr (MsgTransaction t) \<Longrightarrow> \<exists>e. unmarshal_all u bs = Inl e"
  by (induction bs) (auto split: sum.splits message.splits)

lemma sortTransactions_ok:
  assumes c: "sort_Slice_contract srt (salted_less sha (xorTransactions sha bs))"
    and m: "marshal_all marshal ts = Inr bs"
  shows "sortTransactions marshal unmarshal srt sha ts =
      (case unmarshal_all unmarshal (sortWithSalt srt sha bs (xorTransactions sha bs)) of
         Inl err \<Rightarrow> (Some err, ts) | Inr out \<Rightarrow> (None, out))"
proof -
  let ?bs' = "sortWithSalt srt sha bs (xorTransactions sha bs)"
  have "mset ?bs' = mset bs"
    using c by (simp add: sort_Slice_contract_def sortWithSalt_def)
  then have "length ?bs' = length ts"
    using marshal_all_length [OF m] by (metis size_mset)
  then have "write_back out ts = out" if "unmarshal_all unmarshal ?bs' = Inr out" for out
    using unmarshal_all_length [OF that] by (simp add: write_back_eq)
  then show ?thesis
    using m by (simp add: sortTransactions_def split: sum.splits)
qed

lemma tail32_length: "\<forall>b. length (tail32 b) = sha256_Size"
  by (simp add: tail32_def sha256_Size_def min_def)

section \<open>Claims about the ordering protocol\<close>

text \<open>Claim C5. Let the batch marshal to the byte strings \<open>bs\<close>, let \<open>ts'\<close> be any
  rearrangement of the batch \<open>ts\<close>, let both runs use sorts that meet the contract of
  \<^verbatim>\<open>sort.Slice\<close> (they may differ, the sort need not be stable), let the hash return 32
  bytes, and let no two distinct byte strings of the batch have the same salted hash. Then
  the two runs return the same error or both none, and when they return none they leave
  the same sequence of transactions. With \<open>ts' = ts\<close> this is the determinism of a
  repeated run.\<close>

theorem sortTransactions_order_independent:
  assumes c: "sort_Slice_contract srt (salted_less sha (xorTransactions sha bs))"
    and c': "sort_Slice_contract srt' (salted_less sha (xorTransactions sha bs))"
    and l: "\<forall>b. length (sha b) = sha256_Size"
    and m: "marshal_all marshal ts = Inr bs"
    and p: "mset ts' = mset ts"
    and i: "inj_on (\<lambda>b. sha (xorTransactions sha bs @ b)) (set bs)"
  shows "fst (sortTransactions marshal unmarshal srt' sha ts')
           = fst (sortTransactions marshal unmarshal srt sha ts)
     \<and> (fst (sortTransactions marshal unmarshal srt sha ts) = None \<longrightarrow>
          snd (sortTransactions marshal unmarshal srt' sha ts')
            = snd (sortTransactions marshal unmarshal srt sha ts))"
proof -
  let ?salt = "xorTransactions sha bs"
  from marshal_all_mset [OF m p] obtain bs' where
    m': "marshal_all marshal ts' = Inr bs'" and e: "mset bs' = mset bs" by blast
  have salt: "xorTransactions sha bs' = ?salt" by (rule xorTransactions_mset [OF e])
  let ?out = "sortWithSalt srt sha bs ?salt"
  let ?out' = "sortWithSalt srt' sha bs' ?salt"
  from c have o: "mset ?out = mset bs" "sorted (map (\<lambda>b. sha (?salt @ b)) ?out)"
    by (simp_all add: contract_salted sortWithSalt_def)
  from c' have o': "mset ?out' = mset bs'" "sorted (map (\<lambda>b. sha (?salt @ b)) ?out')"
    by (simp_all add: contract_salted sortWithSalt_def)
  have "set ?out = set bs" using o(1) by (metis set_mset_mset)
  with i have "inj_on (\<lambda>b. sha (?salt @ b)) (set ?out)" by simp
  with o o' e have eq: "?out = ?out'"
    by (intro sorted_perm_unique [where f = "\<lambda>b. sha (?salt @ b)"]) simp_all
  have c2: "sort_Slice_contract srt' (salted_less sha (xorTransactions sha bs'))"
    using c' salt by simp
  show ?thesis
    using sortTransactions_ok [OF c m, of unmarshal] sortTransactions_ok [OF c2 m', of unmarshal]
    by (simp add: salt eq split: sum.splits)
qed

text \<open>Claim C5, run on the batches 1, 2, 3 and 3, 1, 2 with insertion sort and the toy
  digest: both leave the order 1, 2, 3.\<close>

theorem sortTransactions_order_independent_witness:
  "sort_Slice_contract insertion_sort
     (salted_less tail32 (xorTransactions tail32 [bytes_of ''x'', bytes_of ''y'', bytes_of ''z'']))
   \<and> (\<forall>b. length (tail32 b) = sha256_Size)
   \<and> marshal_all marshal_key batch_123 = Inr [bytes_of ''x'', bytes_of ''y'', bytes_of ''z'']
   \<and> mset batch_312 = mset batch_123
   \<and> inj_on (\<lambda>b. tail32 (xorTransactions tail32 [bytes_of ''x'', bytes_of ''y'', bytes_of ''z''] @ b))
        (set [bytes_of ''x'', bytes_of ''y'', bytes_of ''z''])
   \<and> sortTransactions marshal_key unmarshal_key insertion_sort tail32 batch_123 = (None, batch_123)
   \<and> sortTransactions marshal_key unmarshal_key insertion_sort tail32 batch_312
       = sortTransactions marshal_key unmarshal_key insertion_sort tail32 batch_123"
proof -
  let ?bs = "[bytes_of ''x'', bytes_of ''y'', bytes_of ''z'']"
  have c: "sort_Slice_contract insertion_sort (salted_less tail32 (xorTransactions tail32 ?bs))"
    by (rule insertion_sort_contract)
  have m: "marshal_all marshal_key batch_123 = Inr ?bs"
    by (simp add: batch_123_def marshal_key_def key_tx_def)
  have p: "mset batch_312 = mset batch_123"
    by (simp add: batch_123_def batch_312_def)
  have i: "inj_on (\<lambda>b. tail32 (xorTransactions tail32 ?bs @ b)) (set ?bs)"
    by (simp add: tail32_def bytes_of_def)
  have r: "sortTransactions marshal_key unmarshal_key insertion_sort tail32 batch_123
      = (None, batch_123)"
    by code_simp
  note T = sortTransactions_order_independent [OF c c tail32_length m p i, of unmarshal_key]
  have n: "fst (sortTransactions marshal_key unmarshal_key insertion_sort tail32 batch_123) = None"
    by (simp only: r fst_conv)
  have e: "sortTransactions marshal_key unmarshal_key insertion_sort tail32 batch_312
      = sortTransactions marshal_key unmarshal_key insertion_sort tail32 batch_123"
  proof (rule prod_eqI)
    show "fst (sortTransactions marshal_key unmarshal_key insertion_sort tail32 batch_312)
      = fst (sortTransactions marshal_key unmarshal_key insertion_sort tail32 batch_123)"
      by (rule T [THEN conjunct1])
    show "snd (sortTransactions marshal_key unmarshal_key insertion_sort tail32 batch_312)
      = snd (sortTransactions marshal_key unmarshal_key insertion_sort tail32 batch_123)"
      by (rule T [THEN conjunct2, THEN mp, OF n])
  qed
  show ?thesis by (intro conjI) (fact c tail32_length m p i r e)+
qed

text \<open>Claim C7. Let the batch marshal to the byte strings \<open>bs\<close>, let the sort meet the
  contract of \<^verbatim>\<open>sort.Slice\<close> and the hash return 32 bytes. Then the salt that
  \<^verbatim>\<open>xorTransactions\<close> computes is the bitwise XOR of the hashes of the byte strings, it
  is the same for every rearrangement of them, the sorted byte strings are a rearrangement
  of \<open>bs\<close> in ascending order of the hash of salt and byte string read as an unsigned
  big-endian number, and \<^verbatim>\<open>sortTransactions\<close> leaves the transactions unmarshalled
  from them in that order.\<close>

theorem sortTransactions_salt_and_order:
  assumes c: "sort_Slice_contract srt (salted_less sha (xorTransactions sha bs))"
    and l: "\<forall>b. length (sha b) = sha256_Size"
    and m: "marshal_all marshal ts = Inr bs"
  shows "xorTransactions sha bs = salt_spec sha bs
     \<and> (\<forall>bs'. mset bs' = mset bs \<longrightarrow> xorTransactions sha bs' = xorTransactions sha bs)
     \<and> mset (sortWithSalt srt sha bs (xorTransactions sha bs)) = mset bs
     \<and> sorted (map (\<lambda>b. be_nat (sha (xorTransactions sha bs @ b)))
          (sortWithSalt srt sha bs (xorTransactions sha bs)))
     \<and> sortTransactions marshal unmarshal srt sha ts =
         (case unmarshal_all unmarshal (sortWithSalt srt sha bs (xorTransactions sha bs)) of
            Inl err \<Rightarrow> (Some err, ts) | Inr out \<Rightarrow> (None, out))"
proof (intro conjI allI impI)
  show "xorTransactions sha bs = salt_spec sha bs"
    by (rule xorTransactions_spec)
  show "xorTransactions sha bs' = xorTransactions sha bs" if "mset bs' = mset bs" for bs'
    using that by (rule xorTransactions_mset)
  from c show "mset (sortWithSalt srt sha bs (xorTransactions sha bs)) = mset bs"
    by (simp add: contract_salted sortWithSalt_def)
  from c have "sorted (map (\<lambda>b. sha (xorTransactions sha bs @ b))
      (sortWithSalt srt sha bs (xorTransactions sha bs)))"
    by (simp add: contract_salted sortWithSalt_def)
  then show "sorted (map (\<lambda>b. be_nat (sha (xorTransactions sha bs @ b)))
      (sortWithSalt srt sha bs (xorTransactions sha bs)))"
    by (rule sorted_be_nat [OF l])
  show "sortTransactions marshal unmarshal srt sha ts =
      (case unmarshal_all unmarshal (sortWithSalt srt sha bs (xorTransactions sha bs)) of
         Inl err \<Rightarrow> (Some err, ts) | Inr out \<Rightarrow> (None, out))"
    by (rule sortTransactions_ok [OF c m])
qed

text \<open>Claim C7, run on the batch 3, 1, 2 with insertion sort and the toy digest.\<close>

theorem sortTransactions_salt_and_order_witness:
  "sort_Slice_contract insertion_sort
     (salted_less tail32 (xorTransactions tail32 [bytes_of ''z'', bytes_of ''x'', bytes_of ''y'']))
   \<and> (\<forall>b. length (tail32 b) = sha256_Size)
   \<and> marshal_all marshal_key batch_312 = Inr [bytes_of ''z'', bytes_of ''x'', bytes_of ''y'']
   \<and> xorTransactions tail32 [bytes_of ''z'', bytes_of ''x'', bytes_of ''y'']
       = salt_spec tail32 [bytes_of ''z'', bytes_of ''x'', bytes_of ''y'']
   \<and> sorted (map (\<lambda>b. be_nat
         (tail32 (xorTransactions tail32 [bytes_of ''z'', bytes_of ''x'', bytes_of ''y''] @ b)))
       (sortWithSalt insertion_sort tail32 [bytes_of ''z'', bytes_of ''x'', bytes_of ''y'']
         (xorTransactions tail32 [bytes_of ''z'', bytes_of ''x'', bytes_of ''y''])))
   \<and> sortTransactions marshal_key unmarshal_key insertion_sort tail32 batch_312 = (None, batch_123)"
proof -
  let ?bs = "[bytes_of ''z'', bytes_of ''x'', bytes_of ''y'']"
  have c: "sort_Slice_contract insertion_sort (salted_less tail32 (xorTransactions tail32 ?bs))"
    by (rule insertion_sort_contract)
  have m: "marshal_all marshal_key batch_312 = Inr ?bs"
    by (simp add: batch_312_def marshal_key_def key_tx_def)
  have r: "sortTransactions marshal_key unmarshal_key insertion_sort tail32 batch_312
      = (None, batch_123)"
    by code_simp
  note T = sortTransactions_salt_and_order [OF c tail32_length m, of unmarshal_key]
  have x: "xorTransactions tail32 ?bs = salt_spec tail32 ?bs"
    by (rule T [THEN conjunct1])
  have o: "sorted (map (\<lambda>b. be_nat (tail32 (xorTransactions tail32 ?bs @ b)))
       (sortWithSalt insertion_sort tail32 ?bs (xorTransactions tail32 ?bs)))"
    by (rule T [THEN conjunct2, THEN conjunct2, THEN conjunct2, THEN conjunct1])
  show ?thesis by (intro conjI) (fact c tail32_length m x o r)+
qed

text \<open>Claim C8. Whenever \<^verbatim>\<open>sortTransactions\<close> returns an error the slice is as it was
  before the call. It returns an error when marshalling fails on a transaction of the
  batch, and (the sort meeting the contract of \<^verbatim>\<open>sort.Slice\<close>) when unmarshalling one
  of the marshalled byte strings fails or gives a value that is not a transaction.\<close>

theorem sortTransactions_failure_keeps_slice:
  "(fst (sortTransactions marshal unmarshal srt sha ts) \<noteq> None \<longrightarrow>
      snd (sortTransactions marshal unmarshal srt sha ts) = ts)
   \<and> ((\<exists>t\<in>set ts. isl (marshal t)) \<longrightarrow>
      fst (sortTransactions marshal unmarshal srt sha ts) \<noteq> None)
   \<and> (\<forall>bs. marshal_all marshal ts = Inr bs
         \<and> sort_Slice_contract srt (salted_less sha (xorTransactions sha bs))
         \<and> (\<exists>b\<in>set bs. \<forall>t. unmarshal b \<noteq> Inr (MsgTransaction t)) \<longrightarrow>
      fst (sortTransactions marshal unmarshal srt sha ts) \<noteq> None)"
proof (intro conjI impI allI)
  assume "fst (sortTransactions marshal unmarshal srt sha ts) \<noteq> None"
  then show "snd (sortTransactions marshal unmarshal srt sha ts) = ts"
    by (auto simp: sortTransactions_def split: sum.splits)
next
  assume "\<exists>t\<in>set ts. isl (marshal t)"
  then obtain t e where t: "t \<in> set ts" "marshal t = Inl e"
    by (auto simp: isl_def)
  from marshal_all_Inl [of t ts marshal e, OF t] show "fst (sortTransactions marshal unmarshal srt sha ts) \<noteq> None"
    by (auto simp: sortTransactions_def)
next
  fix bs
  assume h: "marshal_all marshal ts = Inr bs
         \<and> sort_Slice_contract srt (salted_less sha (xorTransactions sha bs))
         \<and> (\<exists>b\<in>set bs. \<forall>t. unmarshal b \<noteq> Inr (MsgTransaction t))"
  let ?bs' = "sortWithSalt srt sha bs (xorTransactions sha bs)"
  from h have "mset ?bs' = mset bs"
    by (simp add: sort_Slice_contract_def sortWithSalt_def)
  then have "set ?bs' = set bs" by (metis set_mset_mset)
  with h obtain b where "b \<in> set ?bs'" "\<forall>t. unmarshal b \<noteq> Inr (MsgTransaction t)" by blast
  from unmarshal_all_Inl [of b ?bs' unmarshal, OF this] obtain e where "unmarshal_all unmarshal ?bs' = Inl e" ..
  with h show "fst (sortTransactions marshal unmarshal srt sha ts) \<noteq> None"
    by (simp add: sortTransactions_def)
qed

text \<open>Claim C8, run on the batch 3, 1, 2 with a marshalling that fails on key "x", and on
  the batch "z", "y" with an unmarshalling that gives another type for "y".\<close>

theorem sortTransactions_failure_keeps_slice_witness:
  "(\<exists>t\<in>set batch_312. isl (marshal_no_x t))
   \<and> fst (sortTransactions marshal_no_x unmarshal_key insertion_sort tail32 batch_312) \<noteq> None
   \<and> snd (sortTransactions marshal_no_x unmarshal_key insertion_sort tail32 batch_312) = batch_312
   \<and> marshal_all marshal_key batch_zy = Inr [bytes_of ''z'', bytes_of ''y'']
   \<and> (\<exists>b\<in>set [bytes_of ''z'', bytes_of ''y'']. \<forall>t. unmarshal_no_x b \<noteq> Inr (MsgTransaction t))
   \<and> fst (sortTransactions marshal_key unmarshal_no_x insertion_sort tail32 batch_zy) \<noteq> None
   \<and> snd (sortTransactions marshal_key unmarshal_no_x insertion_sort tail32 batch_zy) = batch_zy"
proof -
  let ?bs = "[bytes_of ''z'', bytes_of ''y'']"
  have f1: "\<exists>t\<in>set batch_312. isl (marshal_no_x t)"
    by (simp add: batch_312_def marshal_no_x_def key_tx_def bytes_of_def)
  have m: "marshal_all marshal_key batch_zy = Inr ?bs"
    by (simp add: batch_zy_def marshal_key_def key_tx_def)
  have c: "sort_Slice_contract insertion_sort (salted_less tail32 (xorTransactions tail32 ?bs))"
    by (rule insertion_sort_contract)
  have f2: "\<exists>b\<in>set ?bs. \<forall>t. unmarshal_no_x b \<noteq> Inr (MsgTransaction t)"
    by (simp add: unmarshal_no_x_def bytes_of_def)
  note T1 = sortTransactions_failure_keeps_slice
    [of marshal_no_x unmarshal_key insertion_sort tail32 batch_312]
  have 1: "fst (sortTransactions marshal_no_x unmarshal_key insertion_sort tail32 batch_312) \<noteq> None"
    by (rule T1 [THEN conjunct2, THEN conjunct1, THEN mp, OF f1])
  have 2: "snd (sortTransactions marshal_no_x unmarshal_key insertion_sort tail32 batch_312) = batch_312"
    by (rule T1 [THEN conjunct1, THEN mp, OF 1])
  note T2 = sortTransactions_failure_keeps_slice
    [of marshal_key unmarshal_no_x insertion_sort tail32 batch_zy]
  have 3: "fst (sortTransactions marshal_key unmarshal_no_x insertion_sort tail32 batch_zy) \<noteq> None"
    by (rule T2 [THEN conjunct2, THEN conjunct2, THEN spec, THEN mp, OF conjI [OF m conjI [OF c f2]]])
  have 4: "snd (sortTransactions marshal_key unmarshal_no_x insertion_sort tail32 batch_zy) = batch_zy"
    by (rule T2 [THEN conjunct1, THEN mp, OF 3])
  show ?thesis by (intro conjI) (fact f1 1 2 m f2 3 4)+
qed

end
